theory Spec2Isabelle
  imports Complex_Main "HOL-Library.Sublist"
begin

section \<open>The place resolver of photini/facebook.py\<close>

text \<open>
  The development embeds \<^verbatim>\<open>FacebookSession.get_cities\<close> and the methods it calls
  (\<^verbatim>\<open>get\<close>, \<^verbatim>\<open>get_places\<close>, \<^verbatim>\<open>distance\<close>, \<^verbatim>\<open>is_city\<close>) together with the
  module-level list \<^verbatim>\<open>cities_cache\<close>.

  Conventions of the embedding:
  \<^item> Python floats are idealised as real numbers.
  \<^item> A place is the JSON object the search API returns for the requested fields
    \<^verbatim>\<open>category,id,location,name\<close>; every key may be absent (\<open>None\<close>), and reading an
    absent key with \<^verbatim>\<open>d[k]\<close> is a \<^verbatim>\<open>KeyError\<close>. Equality of places is equality of
    these records, as \<^verbatim>\<open>==\<close> on dicts compares all keys and values.
  \<^item> Strings are ASCII text.
  \<^item> An exception is a value \<open>Inl e\<close>; a normal result is \<open>Inr v\<close>.
  \<^item> The module-level cache and the sequence of HTTP requests issued so far are
    passed in and returned.
  \<^item> The pagination loop of \<^verbatim>\<open>get_places\<close> follows links supplied by the server and
    need not end; it takes fuel (a bound on the pages followed) and yields \<open>None\<close>
    when the fuel runs out.
\<close>

subsection \<open>Data\<close>

datatype error =
    KeyError string
  | TypeError
  | IndexError
  | RequestException string

text \<open>The metadata value \<^verbatim>\<open>latlong\<close> with attributes \<^verbatim>\<open>lat\<close> and \<^verbatim>\<open>lon\<close>.\<close>

record latlong =
  lat :: real
  lon :: real

text \<open>The \<^verbatim>\<open>location\<close> object of a place.\<close>

record place_location =
  latitude :: "real option"
  longitude :: "real option"
  city :: "string option"

record place =
  category :: "string option"
  place_id :: "string option"
  location :: "place_location option"
  name :: "string option"

text \<open>
  A cache entry is the dict built at the end of \<^verbatim>\<open>get_cities\<close>:
  \<^verbatim>\<open>{'location': {'latitude': .., 'longitude': ..}, 'cities_list': result}\<close>.
  Both coordinates are always present there.
\<close>

record cache_location =
  cache_latitude :: real
  cache_longitude :: real

record cache_entry =
  cache_location :: cache_location
  cities_list :: "place list"

text \<open>The \<^verbatim>\<open>params\<close> dict of the search request.\<close>

record search_params =
  param_q :: string
  param_type :: string
  param_center :: latlong
  param_distance :: nat
  param_fields :: string

datatype request = Get string "search_params option"

text \<open>
  The decoded JSON body of a response. \<open>Falsy\<close> is a body for which \<^verbatim>\<open>while places:\<close>
  fails (an empty object); \<open>Object\<close> is a non-empty object with its \<^verbatim>\<open>data\<close> key and
  its \<^verbatim>\<open>paging\<close> key, each possibly absent; the \<^verbatim>\<open>paging\<close> object has an optional
  \<^verbatim>\<open>next\<close> key.
\<close>

record paging =
  paging_next :: "string option"

datatype response =
    Falsy
  | Object "place list option" "paging option"

text \<open>
  The network: what \<^verbatim>\<open>session.get\<close>, \<^verbatim>\<open>raise_for_status\<close> and \<^verbatim>\<open>json\<close> produce for
  a request, as a function of all the requests made before it.
\<close>

type_synonym net = "request list \<Rightarrow> request \<Rightarrow> error + response"

text \<open>
  \<^verbatim>\<open>defaultdict(int)\<close> as the list of its items, the keys in insertion order (the order
  in which \<^verbatim>\<open>hist.keys()\<close> lists them in Python 3.7 and later).
\<close>

type_synonym hist = "(string \<times> nat) list"

subsection \<open>Strings\<close>

definition is_space :: "char \<Rightarrow> bool" where
  "is_space c = (c \<in> set [CHR '' '', CHR 0x09, CHR 0x0A, CHR 0x0B, CHR 0x0C, CHR 0x0D,
                           CHR 0x1C, CHR 0x1D, CHR 0x1E, CHR 0x1F])"

text \<open>\<^verbatim>\<open>s.split()\<close>: the maximal runs of non-whitespace characters.\<close>

fun split_from :: "string \<Rightarrow> string \<Rightarrow> string list" where
  "split_from cur [] = (if cur = [] then [] else [cur])"
| "split_from cur (c # cs) =
     (if is_space c then (if cur = [] then split_from [] cs else cur # split_from [] cs)
      else split_from (cur @ [c]) cs)"

definition split :: "string \<Rightarrow> string list" where
  "split s = split_from [] s"

definition lower_char :: "char \<Rightarrow> char" where
  "lower_char c =
     (case map_of (zip ''ABCDEFGHIJKLMNOPQRSTUVWXYZ'' ''abcdefghijklmnopqrstuvwxyz'') c of
        None \<Rightarrow> c
      | Some l \<Rightarrow> l)"

definition lower :: "string \<Rightarrow> string" where
  "lower s = map lower_char s"

subsection \<open>The histogram\<close>

text \<open>\<^verbatim>\<open>hist[k]\<close> for reading, and \<^verbatim>\<open>hist[k] += 1\<close>.\<close>

fun freq :: "hist \<Rightarrow> string \<Rightarrow> nat" where
  "freq [] k = 0"
| "freq ((k', n) # h) k = (if k' = k then n else freq h k)"

fun incr :: "hist \<Rightarrow> string \<Rightarrow> hist" where
  "incr [] k = [(k, 1)]"
| "incr ((k', n) # h) k = (if k' = k then (k', n + 1) # h else (k', n) # incr h k)"

text \<open>The body of the loop over the words of a place (lines 192 to 197).\<close>

definition count_word :: "hist \<Rightarrow> string \<Rightarrow> hist" where
  "count_word h word =
     (let word1 = (if word \<noteq> [] \<and> hd word \<in> set [CHR '','', CHR ''(''] then tl word else word);
          word2 = (if word1 \<noteq> [] \<and> last word1 \<in> set [CHR '','', CHR '')''] then butlast word1
                   else word1)
      in if length word2 > 2 then incr h (lower word2) else h)"

subsection \<open>distance and is\_city\<close>

definition radians :: "real \<Rightarrow> real" where
  "radians x = x * pi / 180"

definition distance :: "latlong \<Rightarrow> cache_location \<Rightarrow> real" where
  "distance a b =
     (let dx = (lon a - cache_longitude b) * 111320;
          dy = (lat a - cache_latitude b) * 111320 * cos (radians (lat a))
      in sqrt ((dx * dx) + (dy * dy)))"

definition city_categories :: "string list" where
  "city_categories = [''City'', ''Neighborhood'', ''Country'', ''State/province/region'']"

definition is_city :: "place \<Rightarrow> error + bool" where
  "is_city p =
     (case category p of
        None \<Rightarrow> Inl (KeyError ''category'')
      | Some c \<Rightarrow>
          if c \<notin> set city_categories then Inr False
          else (case location p of
                  None \<Rightarrow> Inl (KeyError ''location'')
                | Some l \<Rightarrow>
                    if latitude l = None then Inr False
                    else Inr (longitude l \<noteq> None)))"

subsection \<open>get and get\_places\<close>

definition get :: "net \<Rightarrow> request \<Rightarrow> request list \<Rightarrow> (error + response) \<times> request list" where
  "get nt req reqs = (nt reqs req, reqs @ [req])"

definition search_request :: "latlong \<Rightarrow> nat \<Rightarrow> string \<Rightarrow> request" where
  "search_request ll radius query =
     Get ''https://graph.facebook.com/search''
       (Some \<lparr>param_q = query, param_type = ''place'', param_center = ll,
              param_distance = radius, param_fields = ''category,id,location,name''\<rparr>)"

text \<open>A \<^verbatim>\<open>for\<close> loop whose body may raise.\<close>

fun for_each :: "('s \<Rightarrow> 'a \<Rightarrow> error + 's) \<Rightarrow> 'a list \<Rightarrow> 's \<Rightarrow> error + 's" where
  "for_each body [] s = Inr s"
| "for_each body (x # xs) s =
     (case body s x of Inl e \<Rightarrow> Inl e | Inr s' \<Rightarrow> for_each body xs s')"

text \<open>
  \<^verbatim>\<open>get_places\<close> is a generator: the consumer's loop body runs on each place of a
  page before the next page is requested. \<open>places_loop\<close> is the \<^verbatim>\<open>while places:\<close> loop
  with the consumer's body \<open>body\<close> applied at each \<^verbatim>\<open>yield\<close>; \<open>s\<close> is the consumer's
  state.
\<close>

fun places_loop ::
  "nat \<Rightarrow> net \<Rightarrow> ('s \<Rightarrow> place \<Rightarrow> error + 's) \<Rightarrow> response \<Rightarrow> 's \<Rightarrow> request list
     \<Rightarrow> ((error + 's) \<times> request list) option" where
  "places_loop fuel nt body Falsy s reqs = Some (Inr s, reqs)"
| "places_loop fuel nt body (Object dat pg) s reqs =
     (case dat of
        None \<Rightarrow> Some (Inl (KeyError ''data''), reqs)
      | Some ps \<Rightarrow>
          (case for_each body ps s of
             Inl e \<Rightarrow> Some (Inl e, reqs)
           | Inr s' \<Rightarrow>
               (case pg of
                  None \<Rightarrow> Some (Inr s', reqs)
                | Some pgn \<Rightarrow>
                    (case paging_next pgn of
                       None \<Rightarrow> Some (Inr s', reqs)
                     | Some url \<Rightarrow>
                         (case fuel of
                            0 \<Rightarrow> None
                          | Suc fuel' \<Rightarrow>
                              (case get nt (Get url None) reqs of
                                 (Inl e, reqs') \<Rightarrow> Some (Inl e, reqs')
                               | (Inr places, reqs') \<Rightarrow>
                                   places_loop fuel' nt body places s' reqs'))))))"

definition get_places ::
  "nat \<Rightarrow> net \<Rightarrow> latlong \<Rightarrow> nat \<Rightarrow> string \<Rightarrow> ('s \<Rightarrow> place \<Rightarrow> error + 's) \<Rightarrow> 's \<Rightarrow> request list
     \<Rightarrow> ((error + 's) \<times> request list) option" where
  "get_places fuel nt ll radius query body s reqs =
     (case get nt (search_request ll radius query) reqs of
        (Inl e, reqs') \<Rightarrow> Some (Inl e, reqs')
      | (Inr places, reqs') \<Rightarrow> places_loop fuel nt body places s reqs')"

text \<open>\<^verbatim>\<open>list(get_places(latlong, distance, query))\<close>: the places a search yields.\<close>

definition collect :: "place list \<Rightarrow> place \<Rightarrow> error + place list" where
  "collect acc p = Inr (acc @ [p])"

definition places_list ::
  "nat \<Rightarrow> net \<Rightarrow> latlong \<Rightarrow> nat \<Rightarrow> string \<Rightarrow> request list
     \<Rightarrow> ((error + place list) \<times> request list) option" where
  "places_list fuel nt ll radius query reqs = get_places fuel nt ll radius query collect [] reqs"

subsection \<open>get\_cities\<close>

text \<open>The scan of the cache (lines 176 to 180).\<close>

fun nearest_cache ::
  "latlong \<Rightarrow> cache_entry list \<Rightarrow> place list option \<times> real \<Rightarrow> place list option \<times> real" where
  "nearest_cache ll [] nearest = nearest"
| "nearest_cache ll (cache # rest) nearest =
     (let d = distance ll (cache_location cache)
      in nearest_cache ll rest
           (if d < snd nearest then (Some (cities_list cache), d) else nearest))"

text \<open>\<^verbatim>\<open>if place not in result and self.is_city(place): result.append(place)\<close>\<close>

definition add_city :: "place list \<Rightarrow> place \<Rightarrow> error + place list" where
  "add_city result p =
     (if p \<notin> set result then
        (case is_city p of
           Inl e \<Rightarrow> Inl e
         | Inr b \<Rightarrow> Inr (if b then result @ [p] else result))
      else Inr result)"

text \<open>The body of the loop over the first search (lines 191 to 199).\<close>

definition process_place :: "hist \<times> place list \<Rightarrow> place \<Rightarrow> error + hist \<times> place list" where
  "process_place s p =
     (case name p of
        None \<Rightarrow> Inl (KeyError ''name'')
      | Some n \<Rightarrow>
          (case location p of
             None \<Rightarrow> Inl (KeyError ''location'')
           | Some l \<Rightarrow>
               (case city l of
                  None \<Rightarrow> Inl (KeyError ''city'')
                | Some c \<Rightarrow>
                    (let h = foldl count_word (fst s) (split n @ split c)
                     in case add_city (snd s) p of
                          Inl e \<Rightarrow> Inl e
                        | Inr result \<Rightarrow> Inr (h, result)))))"

text \<open>Lines 200 to 205.\<close>

definition seed_hist :: "hist \<Rightarrow> hist" where
  "seed_hist h = (if h = [] then [(''city'', 1)] else h)"

definition sorted_words :: "hist \<Rightarrow> string list" where
  "sorted_words h = sort_key (\<lambda>x. - int (freq h x)) (map fst h)"

definition threshold_of :: "hist \<Rightarrow> string list \<Rightarrow> error + nat" where
  "threshold_of h words =
     (if length words div 2 < length words then Inr (freq h (words ! (length words div 2)))
      else Inl IndexError)"

text \<open>The loop over \<^verbatim>\<open>words[:5]\<close> (lines 206 to 211).\<close>

fun search_words ::
  "nat \<Rightarrow> net \<Rightarrow> latlong \<Rightarrow> hist \<Rightarrow> nat \<Rightarrow> string list \<Rightarrow> place list \<Rightarrow> request list
     \<Rightarrow> ((error + place list) \<times> request list) option" where
  "search_words fuel nt ll h threshold [] result reqs = Some (Inr result, reqs)"
| "search_words fuel nt ll h threshold (word # ws) result reqs =
     (if freq h word \<le> threshold then Some (Inr result, reqs)
      else (case get_places fuel nt ll 10000 word add_city result reqs of
              None \<Rightarrow> None
            | Some (Inl e, reqs') \<Rightarrow> Some (Inl e, reqs')
            | Some (Inr result', reqs') \<Rightarrow> search_words fuel nt ll h threshold ws result' reqs'))"

text \<open>Lines 200 to 211: everything after the first search, up to the cache update.\<close>

definition second_phase ::
  "nat \<Rightarrow> net \<Rightarrow> latlong \<Rightarrow> hist \<Rightarrow> place list \<Rightarrow> request list
     \<Rightarrow> ((error + place list) \<times> request list) option" where
  "second_phase fuel nt ll h0 result reqs =
     (let h = seed_hist h0;
          words = sorted_words h
      in case threshold_of h words of
           Inl e \<Rightarrow> Some (Inl e, reqs)
         | Inr threshold \<Rightarrow> search_words fuel nt ll h threshold (take 5 words) result reqs)"

text \<open>Lines 181 to 187: the initial \<^verbatim>\<open>result\<close> of a cache miss.\<close>

definition initial_result :: "place list option \<times> real \<Rightarrow> error + place list" where
  "initial_result nearest =
     (if snd nearest < 1000 then
        (case fst nearest of None \<Rightarrow> Inl TypeError | Some cl \<Rightarrow> Inr cl)
      else Inr [])"

text \<open>
  \<^verbatim>\<open>get_cities\<close>. The value returned is \<^verbatim>\<open>nearest[0]\<close> on a cache hit, which Python
  types as a list or \<^verbatim>\<open>None\<close>, and \<^verbatim>\<open>result\<close> otherwise. The triple holds the
  outcome, the cache afterwards and the requests issued so far.
\<close>

definition get_cities ::
  "nat \<Rightarrow> net \<Rightarrow> latlong \<Rightarrow> cache_entry list \<Rightarrow> request list
     \<Rightarrow> ((error + place list option) \<times> cache_entry list \<times> request list) option" where
  "get_cities fuel nt ll cities_cache reqs =
     (let nearest = nearest_cache ll cities_cache (None, 1000000000000)
      in if snd nearest < 500 then Some (Inr (fst nearest), cities_cache, reqs)
         else
           (case initial_result nearest of
              Inl e \<Rightarrow> Some (Inl e, cities_cache, reqs)
            | Inr result0 \<Rightarrow>
                (case get_places fuel nt ll 1000 [] process_place ([], result0) reqs of
                   None \<Rightarrow> None
                 | Some (Inl e, reqs1) \<Rightarrow> Some (Inl e, cities_cache, reqs1)
                 | Some (Inr (h, result1), reqs1) \<Rightarrow>
                     (case second_phase fuel nt ll h result1 reqs1 of
                        None \<Rightarrow> None
                      | Some (Inl e, reqs2) \<Rightarrow> Some (Inl e, cities_cache, reqs2)
                      | Some (Inr result, reqs2) \<Rightarrow>
                          Some (Inr (Some result),
                                cities_cache @
                                  [\<lparr>cache_location =
                                      \<lparr>cache_latitude = lat ll, cache_longitude = lon ll\<rparr>,
                                    cities_list = result\<rparr>],
                                reqs2)))))"

subsection \<open>Concrete places, caches and networks\<close>

text \<open>
  A network given by a table of answers; a request outside the table is answered
  with an empty object.
\<close>

definition table_net :: "(request \<times> (error + response)) list \<Rightarrow> net" where
  "table_net table reqs req = (case map_of table req of None \<Rightarrow> Inr Falsy | Some a \<Rightarrow> a)"

definition origin :: latlong where
  "origin = \<lparr>lat = 0, lon = 0\<rparr>"

definition nearby :: latlong where
  "nearby = \<lparr>lat = 0, lon = 3 / 500\<rparr>"

definition bath_location :: place_location where
  "bath_location = \<lparr>latitude = Some 0, longitude = Some 0, city = Some ''Bath''\<rparr>"

definition bath :: place where
  "bath = \<lparr>category = Some ''City'', place_id = Some ''1'', location = Some bath_location,
            name = Some ''Bath''\<rparr>"

definition bath_renamed :: place where
  "bath_renamed = \<lparr>category = Some ''City'', place_id = Some ''1'',
                    location = Some bath_location, name = Some ''City of Bath''\<rparr>"

definition abbey :: place where
  "abbey = \<lparr>category = Some ''Landmark'', place_id = Some ''10'',
             location = Some bath_location, name = Some ''Bath Abbey''\<rparr>"

definition spa :: place where
  "spa = \<lparr>category = Some ''Spa'', place_id = Some ''11'',
           location = Some bath_location, name = Some ''Bath Spa''\<rparr>"

definition somerset :: place where
  "somerset = \<lparr>category = Some ''State/province/region'', place_id = Some ''3'',
                location = Some \<lparr>latitude = Some 0, longitude = Some 0, city = None\<rparr>,
                name = Some ''Somerset''\<rparr>"

definition nowhere :: place where
  "nowhere = \<lparr>category = Some ''City'', place_id = Some ''2'', location = None,
               name = Some ''Nowhere''\<rparr>"

definition unlocated :: place where
  "unlocated = \<lparr>category = Some ''City'', place_id = Some ''4'',
                 location = Some \<lparr>latitude = None, longitude = None, city = Some ''Wells''\<rparr>,
                 name = Some ''Wells''\<rparr>"

definition new_york :: place where
  "new_york = \<lparr>category = Some ''City'', place_id = Some ''5'',
                location = Some \<lparr>latitude = Some 0, longitude = Some 0, city = Some ''New York, (NY)''\<rparr>,
                name = Some ''New York City''\<rparr>"

definition pub :: place where
  "pub = \<lparr>category = Some ''Pub'', place_id = Some ''6'', location = None,
           name = Some ''The Bell''\<rparr>"

definition origin_entry :: cache_entry where
  "origin_entry = \<lparr>cache_location = \<lparr>cache_latitude = 0, cache_longitude = 0\<rparr>,
                    cities_list = [somerset]\<rparr>"

definition bath_net :: net where
  "bath_net = table_net
     [(search_request nearby 1000 [], Inr (Object (Some [abbey, spa]) (Some \<lparr>paging_next = Some ''page2''\<rparr>))),
      (Get ''page2'' None, Inr (Object (Some [bath]) None)),
      (search_request nearby 10000 ''bath'', Inr (Object (Some [bath, somerset]) None))]"

definition failing_net :: net where
  "failing_net = table_net
     [(search_request nearby 1000 [], Inr (Object (Some [abbey, spa]) None)),
      (search_request nearby 10000 ''bath'', Inl (RequestException ''503''))]"

definition duplicate_net :: net where
  "duplicate_net = table_net
     [(search_request origin 1000 [], Inr (Object (Some [bath, bath_renamed]) None))]"

definition nowhere_net :: net where
  "nowhere_net = table_net [(search_request origin 1000 [], Inr (Object (Some [nowhere]) None))]"

definition city_net :: net where
  "city_net = table_net [(search_request origin 10000 ''city'', Inr (Object (Some [bath]) None))]"

subsection \<open>The request log\<close>

text \<open>
  A search call is a request with a \<^verbatim>\<open>params\<close> dict, the first request of a
  \<^verbatim>\<open>get_places\<close> call; the requests that follow a \<^verbatim>\<open>paging.next\<close> link have none.
\<close>

fun is_search :: "request \<Rightarrow> bool" where
  "is_search (Get url params) = (params \<noteq> None)"

definition searches :: "request list \<Rightarrow> request list" where
  "searches reqs = filter is_search reqs"

text \<open>The exception an outcome carries, if any.\<close>

fun raised :: "error + 'a \<Rightarrow> error option" where
  "raised (Inl e) = Some e"
| "raised (Inr v) = None"

text \<open>
  \<open>propagated nt old new eo\<close>: of the requests \<open>new\<close>, issued in this order after the
  requests \<open>old\<close>, none but the last is answered with an exception, and when the last
  is, that exception is \<open>eo\<close>.
\<close>

fun propagated :: "net \<Rightarrow> request list \<Rightarrow> request list \<Rightarrow> error option \<Rightarrow> bool" where
  "propagated nt old [] eo = True"
| "propagated nt old (r # rs) eo =
     (case nt old r of
        Inl e \<Rightarrow> rs = [] \<and> eo = Some e
      | Inr v \<Rightarrow> propagated nt (old @ [r]) rs eo)"

text \<open>
  The network \<open>nt\<close> with one change: the request made when \<open>n\<close> requests have been
  issued is answered with the exception \<open>e\<close>.
\<close>

definition raise_at :: "nat \<Rightarrow> error \<Rightarrow> net \<Rightarrow> net" where
  "raise_at n e nt = (\<lambda>reqs req. if length reqs = n then Inl e else nt reqs req)"

subsection \<open>Tokens, as the specification words them\<close>

text \<open>
  The specification's step 5: strip one leading character if it is a comma or an
  opening parenthesis, and one trailing character if it is a comma or a closing
  parenthesis; keep the tokens longer than 2 characters; lowercase them.
\<close>

fun strip_leading :: "string \<Rightarrow> string" where
  "strip_leading [] = []"
| "strip_leading (c # cs) = (if c = CHR '','' \<or> c = CHR ''('' then cs else c # cs)"

fun strip_last :: "string \<Rightarrow> string" where
  "strip_last [] = []"
| "strip_last (c # cs) = (if c = CHR '','' \<or> c = CHR '')'' then cs else c # cs)"

definition strip_trailing :: "string \<Rightarrow> string" where
  "strip_trailing w = rev (strip_last (rev w))"

definition token_of :: "string \<Rightarrow> string option" where
  "token_of w =
     (let t = strip_trailing (strip_leading w)
      in if length t \<le> 2 then None else Some (lower t))"

definition tokens_of :: "string list \<Rightarrow> string list" where
  "tokens_of ws = List.map_filter token_of ws"

section \<open>Evaluation and auxiliary facts\<close>

lemmas ex_defs = table_net_def origin_def nearby_def bath_location_def bath_def bath_renamed_def
  abbey_def spa_def somerset_def origin_entry_def bath_net_def nowhere_def unlocated_def
  new_york_def failing_net_def duplicate_net_def nowhere_net_def city_net_def pub_def

lemmas run_defs = get_cities_def get_places_def get_def search_request_def process_place_def
  add_city_def is_city_def city_categories_def split_def is_space_def count_word_def lower_def
  lower_char_def seed_hist_def sorted_words_def threshold_of_def second_phase_def
  initial_result_def Let_def

lemma sqrt_less_iff: "0 \<le> c \<Longrightarrow> sqrt x < c \<longleftrightarrow> x < c * c"
  by (metis abs_of_nonneg real_sqrt_abs2 real_sqrt_less_iff)

lemma sqrt_ge_iff: "0 \<le> c \<Longrightarrow> c \<le> sqrt x \<longleftrightarrow> c * c \<le> x"
  by (metis abs_of_nonneg real_sqrt_abs2 real_sqrt_le_iff)

lemma nearest_unchanged:
  "\<forall>e \<in> set cache. snd nearest \<le> distance ll (cache_location e) \<Longrightarrow>
   nearest_cache ll cache nearest = nearest"
  by (induction cache arbitrary: nearest) (auto simp: Let_def)

lemma nearest_first_min:
  "i < length cache \<Longrightarrow>
   distance ll (cache_location (cache ! i)) < snd nearest \<Longrightarrow>
   \<forall>j < length cache. distance ll (cache_location (cache ! i)) \<le> distance ll (cache_location (cache ! j)) \<Longrightarrow>
   \<forall>j < i. distance ll (cache_location (cache ! i)) < distance ll (cache_location (cache ! j)) \<Longrightarrow>
   nearest_cache ll cache nearest =
     (Some (cities_list (cache ! i)), distance ll (cache_location (cache ! i)))"
proof (induction cache arbitrary: nearest i)
  case Nil
  then show ?case by simp
next
  case (Cons c rest)
  show ?case
  proof (cases i)
    case 0
    have "\<forall>e \<in> set rest. distance ll (cache_location c) \<le> distance ll (cache_location e)"
    proof
      fix e assume "e \<in> set rest"
      then obtain k where "k < length rest" "rest ! k = e" by (auto simp: in_set_conv_nth)
      with Cons.prems(3) 0 show "distance ll (cache_location c) \<le> distance ll (cache_location e)"
        by (metis length_Cons not_less_eq nth_Cons_0 nth_Cons_Suc)
    qed
    then have "nearest_cache ll rest (Some (cities_list c), distance ll (cache_location c)) =
      (Some (cities_list c), distance ll (cache_location c))"
      by (intro nearest_unchanged) simp
    with Cons.prems(2) 0 show ?thesis by (simp add: Let_def)
  next
    case (Suc i')
    let ?di = "distance ll (cache_location (rest ! i'))"
    let ?n' = "if distance ll (cache_location c) < snd nearest
               then (Some (cities_list c), distance ll (cache_location c)) else nearest"
    have lt0: "?di < distance ll (cache_location c)"
      using Cons.prems(4) Suc by (metis nth_Cons_0 nth_Cons_Suc zero_less_Suc)
    have a: "i' < length rest" using Cons.prems(1) Suc by simp
    have b: "?di < snd ?n'" using Cons.prems(2) Suc lt0 by simp
    have c: "\<forall>j < length rest. ?di \<le> distance ll (cache_location (rest ! j))"
      using Cons.prems(3) Suc by (metis Suc_less_eq length_Cons nth_Cons_Suc)
    have d: "\<forall>j < i'. ?di < distance ll (cache_location (rest ! j))"
      using Cons.prems(4) Suc by (metis Suc_less_eq nth_Cons_Suc)
    from Cons.IH [OF a b c d] Suc show ?thesis by (simp add: Let_def)
  qed
qed

lemma nearest_cache_cases:
  "nearest_cache ll cache nearest = nearest \<or>
   (\<exists>entry \<in> set cache. nearest_cache ll cache nearest =
      (Some (cities_list entry), distance ll (cache_location entry)))"
proof (induction cache arbitrary: nearest)
  case Nil
  then show ?case by simp
next
  case (Cons c rest)
  let ?n' = "if distance ll (cache_location c) < snd nearest
             then (Some (cities_list c), distance ll (cache_location c)) else nearest"
  from Cons.IH [of ?n'] show ?case by (auto simp: Let_def split: if_splits)
qed

lemma nearest_cache_lower_bound:
  "\<forall>entry \<in> set cache. c \<le> distance ll (cache_location entry) \<Longrightarrow> c \<le> snd nearest \<Longrightarrow>
   c \<le> snd (nearest_cache ll cache nearest)"
  by (induction cache arbitrary: nearest) (auto simp: Let_def)

lemma for_each_inv:
  assumes step: "\<And>s x s'. P s \<Longrightarrow> body s x = Inr s' \<Longrightarrow> P s'"
  shows "for_each body xs s = Inr s' \<Longrightarrow> P s \<Longrightarrow> P s'"
proof (induction xs arbitrary: s)
  case Nil
  then show ?case by simp
next
  case (Cons x xs)
  from Cons.prems(1) obtain s1 where b: "body s x = Inr s1" and r: "for_each body xs s1 = Inr s'"
    by (auto split: sum.splits)
  from step [OF Cons.prems(2) b] have "P s1" .
  from Cons.IH [OF r this] show ?case .
qed

lemma places_loop_inv:
  assumes step: "\<And>s x s'. P s \<Longrightarrow> body s x = Inr s' \<Longrightarrow> P s'"
  shows "places_loop fuel nt body resp s reqs = Some (Inr s', reqs') \<Longrightarrow> P s \<Longrightarrow> P s'"
proof (induction fuel arbitrary: resp s reqs)
  case 0
  show ?case
  proof (cases resp)
    case Falsy
    with "0.prems" show ?thesis by simp
  next
    case (Object dat pg)
    with "0.prems" show ?thesis
      by (auto split: option.splits sum.splits intro: for_each_inv [of P body, OF step])
  qed
next
  case (Suc fuel)
  show ?case
  proof (cases resp)
    case Falsy
    with Suc.prems show ?thesis by simp
  next
    case (Object dat pg)
    with Suc.prems show ?thesis
      by (auto simp: get_def split: option.splits sum.splits
          intro: for_each_inv [of P body, OF step] Suc.IH)
  qed
qed

lemma get_places_inv:
  assumes step: "\<And>s x s'. P s \<Longrightarrow> body s x = Inr s' \<Longrightarrow> P s'"
  shows "get_places fuel nt ll radius query body s reqs = Some (Inr s', reqs') \<Longrightarrow> P s \<Longrightarrow> P s'"
  unfolding get_places_def
  by (auto simp: get_def split: sum.splits intro: places_loop_inv [of P body, OF step])

lemma search_words_inv:
  assumes step: "\<And>s x s'. P s \<Longrightarrow> add_city s x = Inr s' \<Longrightarrow> P s'"
  shows "search_words fuel nt ll h threshold ws result reqs = Some (Inr result', reqs') \<Longrightarrow>
    P result \<Longrightarrow> P result'"
proof (induction ws arbitrary: result reqs)
  case Nil
  then show ?case by simp
next
  case (Cons w ws)
  show ?case
  proof (cases "freq h w \<le> threshold")
    case True
    with Cons.prems show ?thesis by simp
  next
    case False
    with Cons.prems(1) obtain r1 reqs1 where
      g: "get_places fuel nt ll 10000 w add_city result reqs = Some (Inr r1, reqs1)" and
      r: "search_words fuel nt ll h threshold ws r1 reqs1 = Some (Inr result', reqs')"
      by (auto split: option.splits sum.splits prod.splits)
    from get_places_inv [of P add_city, OF step g Cons.prems(2)] have "P r1" .
    from Cons.IH [OF r this] show ?thesis .
  qed
qed

lemma add_city_distinct: "distinct result \<Longrightarrow> add_city result p = Inr result' \<Longrightarrow> distinct result'"
  by (auto simp: add_city_def split: if_splits sum.splits)

lemma add_city_superset: "A \<subseteq> set result \<Longrightarrow> add_city result p = Inr result' \<Longrightarrow> A \<subseteq> set result'"
  by (auto simp: add_city_def split: if_splits sum.splits)

lemma process_place_snd:
  "process_place s p = Inr s' \<Longrightarrow> add_city (snd s) p = Inr (snd s')"
  by (auto simp: process_place_def Let_def split: option.splits sum.splits)

lemma second_phase_inv:
  assumes step: "\<And>s x s'. P s \<Longrightarrow> add_city s x = Inr s' \<Longrightarrow> P s'"
  shows "second_phase fuel nt ll h0 result reqs = Some (Inr result', reqs') \<Longrightarrow> P result \<Longrightarrow> P result'"
  unfolding second_phase_def Let_def
  by (auto split: sum.splits intro: search_words_inv [of P, OF step])

lemma get_cities_miss_inv:
  assumes step: "\<And>s x s'. P s \<Longrightarrow> add_city s x = Inr s' \<Longrightarrow> P s'"
    and run: "get_cities fuel nt ll cache reqs = Some (Inr r, cache', reqs')"
    and miss: "\<not> snd (nearest_cache ll cache (None, 1000000000000)) < 500"
    and init: "\<And>result0. initial_result (nearest_cache ll cache (None, 1000000000000)) = Inr result0 \<Longrightarrow> P result0"
  shows "\<exists>result. r = Some result \<and> P result"
proof -
  let ?n = "nearest_cache ll cache (None, 1000000000000)"
  from run miss obtain result0 h result1 reqs1 result where
    i: "initial_result ?n = Inr result0" and
    f: "get_places fuel nt ll 1000 [] process_place ([], result0) reqs = Some (Inr (h, result1), reqs1)" and
    s: "second_phase fuel nt ll h result1 reqs1 = Some (Inr result, reqs')" and
    r: "r = Some result"
    unfolding get_cities_def Let_def
    by (auto split: sum.splits option.splits prod.splits)
  have "P (snd ([]::hist, result0))" using init [OF i] by simp
  from get_places_inv [of "\<lambda>s. P (snd s)" process_place, OF _ f this]
  have "P result1" using step process_place_snd by fastforce
  from second_phase_inv [of P, OF step s this] r show ?thesis by simp
qed

lemma for_each_collect: "for_each collect ps acc = Inr (acc @ ps)"
  by (induction ps arbitrary: acc) (simp_all add: collect_def)

lemma places_loop_collect_length:
  assumes "places_loop fuel nt collect resp acc reqs = Some (Inr acc', reqs')"
  shows "length acc \<le> length acc'"
proof (rule places_loop_inv [of "\<lambda>s. length acc \<le> length s" collect, OF _ assms])
  show "\<And>s x s'. length acc \<le> length s \<Longrightarrow> collect s x = Inr s' \<Longrightarrow> length acc \<le> length s'"
    by (auto simp: collect_def)
  show "length acc \<le> length acc" by simp
qed

lemma places_loop_no_places:
  "places_loop fuel nt collect resp acc reqs = Some (Inr acc, reqs') \<Longrightarrow>
   places_loop fuel nt body resp s reqs = Some (Inr s, reqs')"
proof (induction fuel arbitrary: resp reqs)
  case 0
  show ?case
  proof (cases resp)
    case Falsy
    with "0.prems" show ?thesis by simp
  next
    case (Object dat pg)
    with "0.prems" show ?thesis
      by (auto simp: for_each_collect split: option.splits)
  qed
next
  case (Suc fuel)
  show ?case
  proof (cases resp)
    case Falsy
    with Suc.prems show ?thesis by simp
  next
    case (Object dat pg)
    show ?thesis
    proof (cases dat)
      case None
      with Object Suc.prems show ?thesis by simp
    next
      case (Some ps)
      have "ps = []"
      proof (cases "\<exists>pgn url. pg = Some pgn \<and> paging_next pgn = Some url")
        case False
        with Object Some Suc.prems show ?thesis
          by (auto simp: for_each_collect split: option.splits)
      next
        case True
        then obtain pgn url where pg: "pg = Some pgn" "paging_next pgn = Some url" by blast
        with Object Some Suc.prems obtain places reqs1 where
          "places_loop fuel nt collect places (acc @ ps) reqs1 = Some (Inr acc, reqs')"
          by (auto simp: for_each_collect get_def split: sum.splits)
        from places_loop_collect_length [OF this] show ?thesis by simp
      qed
      with Object Some Suc.prems show ?thesis
        by (auto simp: get_def split: option.splits sum.splits dest: Suc.IH)
    qed
  qed
qed

lemma freq_incr: "freq (incr h k) x = freq h x + (if k = x then 1 else 0)"
  by (induction h) auto

lemma strip_leading_eq:
  "(if w \<noteq> [] \<and> hd w \<in> set [CHR '','', CHR ''(''] then tl w else w) = strip_leading w"
  by (cases w) auto

lemma strip_trailing_eq:
  "(if w \<noteq> [] \<and> last w \<in> set [CHR '','', CHR '')''] then butlast w else w) = strip_trailing w"
proof (cases w rule: rev_cases)
  case Nil
  then show ?thesis by (simp add: strip_trailing_def)
next
  case (snoc ys y)
  then show ?thesis by (auto simp: strip_trailing_def)
qed

lemma count_word_token:
  "count_word h w = (case token_of w of None \<Rightarrow> h | Some t \<Rightarrow> incr h t)"
  unfolding count_word_def Let_def strip_leading_eq strip_trailing_eq token_of_def
  by (simp add: not_le)

lemma freq_count_word:
  "freq (count_word h w) x = freq h x + count_list (tokens_of [w]) x"
  by (simp add: count_word_token tokens_of_def List.map_filter_simps freq_incr split: option.splits)

lemma tokens_of_Cons: "tokens_of (w # ws) = tokens_of [w] @ tokens_of ws"
  by (simp add: tokens_of_def List.map_filter_simps split: option.splits)

lemma count_list_append: "count_list (xs @ ys) x = count_list xs x + count_list ys x"
  by (induction xs) auto

lemma freq_foldl_count_word:
  "freq (foldl count_word h ws) x = freq h x + count_list (tokens_of ws) x"
proof (induction ws arbitrary: h)
  case Nil
  then show ?case by (simp add: tokens_of_def List.map_filter_simps)
next
  case (Cons w ws)
  have "freq (foldl count_word h (w # ws)) x = freq (count_word h w) x + count_list (tokens_of ws) x"
    using Cons.IH [of "count_word h w"] by simp
  also have "\<dots> = freq h x + count_list (tokens_of [w]) x + count_list (tokens_of ws) x"
    by (simp add: freq_count_word)
  also have "\<dots> = freq h x + count_list (tokens_of (w # ws)) x"
    using tokens_of_Cons [of w ws] by (simp add: count_list_append)
  finally show ?case .
qed

lemma propagated_append:
  "propagated nt old new1 None \<Longrightarrow> propagated nt (old @ new1) new2 eo \<Longrightarrow>
   propagated nt old (new1 @ new2) eo"
  by (induction new1 arbitrary: old) (auto split: sum.splits)

lemma propagated_nth:
  "propagated nt old new eo \<Longrightarrow> i < length new \<Longrightarrow> nt (old @ take i new) (new ! i) = Inl e \<Longrightarrow>
   eo = Some e \<and> Suc i = length new"
proof (induction new arbitrary: old i)
  case Nil
  then show ?case by simp
next
  case (Cons r rs)
  show ?case
  proof (cases i)
    case 0
    with Cons.prems show ?thesis by simp
  next
    case (Suc i')
    with Cons.prems obtain v where v: "nt old r = Inr v" by (cases "nt old r") auto
    with Cons.prems Suc have "propagated nt (old @ [r]) rs eo" "i' < length rs"
      "nt ((old @ [r]) @ take i' rs) (rs ! i') = Inl e"
      by simp_all
    from Cons.IH [OF this] Suc show ?thesis by simp
  qed
qed

lemma places_loop_log:
  "places_loop fuel nt body resp s reqs = Some (res, reqs') \<Longrightarrow>
   \<exists>new. reqs' = reqs @ new \<and> searches new = [] \<and> propagated nt reqs new (raised res)"
proof (induction fuel arbitrary: resp s reqs)
  case 0
  show ?case
  proof (cases resp)
    case Falsy
    with "0.prems" show ?thesis by (simp add: searches_def)
  next
    case (Object dat pg)
    with "0.prems" show ?thesis
      by (auto simp: searches_def split: option.splits sum.splits)
  qed
next
  case (Suc fuel)
  show ?case
  proof (cases resp)
    case Falsy
    with Suc.prems show ?thesis by (simp add: searches_def)
  next
    case (Object dat pg)
    show ?thesis
    proof (cases "\<exists>ps s1 pgn url places. dat = Some ps \<and> for_each body ps s = Inr s1 \<and>
        pg = Some pgn \<and> paging_next pgn = Some url \<and> nt reqs (Get url None) = Inr places")
      case True
      then obtain ps s1 pgn url places where
        a: "dat = Some ps" "for_each body ps s = Inr s1" "pg = Some pgn"
           "paging_next pgn = Some url" "nt reqs (Get url None) = Inr places"
        by blast
      with Object Suc.prems have
        "places_loop fuel nt body places s1 (reqs @ [Get url None]) = Some (res, reqs')"
        by (simp add: get_def)
      from Suc.IH [OF this] obtain new where
        n: "reqs' = (reqs @ [Get url None]) @ new" "searches new = []"
           "propagated nt (reqs @ [Get url None]) new (raised res)"
        by blast
      have "reqs' = reqs @ (Get url None # new)" using n(1) by simp
      moreover have "searches (Get url None # new) = []" using n(2) by (simp add: searches_def)
      moreover have "propagated nt reqs (Get url None # new) (raised res)"
        using n(3) a(5) by simp
      ultimately show ?thesis by blast
    next
      case False
      with Object Suc.prems show ?thesis
        by (auto simp: searches_def get_def split: option.splits sum.splits)
    qed
  qed
qed

lemma get_places_log:
  assumes "get_places fuel nt ll radius query body s reqs = Some (res, reqs')"
  shows "\<exists>new. reqs' = reqs @ new \<and> searches new = [search_request ll radius query] \<and>
           propagated nt reqs new (raised res)"
proof (cases "nt reqs (search_request ll radius query)")
  case (Inl e)
  with assms have "reqs' = reqs @ [search_request ll radius query]" "res = Inl e"
    by (auto simp: get_places_def get_def)
  with Inl show ?thesis by (simp add: searches_def search_request_def)
next
  case (Inr places)
  with assms have
    "places_loop fuel nt body places s (reqs @ [search_request ll radius query]) = Some (res, reqs')"
    by (simp add: get_places_def get_def)
  from places_loop_log [OF this] obtain new where
    n: "reqs' = (reqs @ [search_request ll radius query]) @ new" "searches new = []"
       "propagated nt (reqs @ [search_request ll radius query]) new (raised res)"
    by blast
  have "reqs' = reqs @ (search_request ll radius query # new)" using n(1) by simp
  moreover have "searches (search_request ll radius query # new) = [search_request ll radius query]"
    using n(2) by (simp add: searches_def search_request_def)
  moreover have "propagated nt reqs (search_request ll radius query # new) (raised res)"
    using n(3) Inr by simp
  ultimately show ?thesis by blast
qed

lemma search_words_log:
  "search_words fuel nt ll h threshold ws result reqs = Some (res, reqs') \<Longrightarrow>
   \<exists>new. reqs' = reqs @ new \<and> propagated nt reqs new (raised res) \<and>
     prefix (searches new)
       (map (search_request ll 10000) (takeWhile (\<lambda>w. threshold < freq h w) ws)) \<and>
     (raised res = None \<longrightarrow>
        searches new = map (search_request ll 10000) (takeWhile (\<lambda>w. threshold < freq h w) ws))"
proof (induction ws arbitrary: result reqs)
  case Nil
  then show ?case by (intro exI [of _ "[]"]) (auto simp: searches_def)
next
  case (Cons w ws)
  let ?L = "map (search_request ll 10000) (takeWhile (\<lambda>w. threshold < freq h w) ws)"
  show ?case
  proof (cases "freq h w \<le> threshold")
    case True
    with Cons.prems show ?thesis by (intro exI [of _ "[]"]) (auto simp: searches_def)
  next
    case False
    with Cons.prems obtain r1 reqs1 where
      g: "get_places fuel nt ll 10000 w add_city result reqs = Some (r1, reqs1)"
      by (auto split: option.splits)
    from get_places_log [OF g] obtain new1 where
      n1: "reqs1 = reqs @ new1" "searches new1 = [search_request ll 10000 w]"
          "propagated nt reqs new1 (raised r1)"
      by blast
    show ?thesis
    proof (cases r1)
      case (Inl e)
      with Cons.prems False g have "res = Inl e" "reqs' = reqs1" by simp_all
      with n1 Inl False show ?thesis
        by (intro exI [of _ new1]) (simp add: not_le)
    next
      case (Inr result1)
      with Cons.prems False g have
        "search_words fuel nt ll h threshold ws result1 reqs1 = Some (res, reqs')" by simp
      from Cons.IH [OF this] obtain new2 where
        n2: "reqs' = reqs1 @ new2" "propagated nt reqs1 new2 (raised res)"
            "prefix (searches new2) ?L" "raised res = None \<longrightarrow> searches new2 = ?L"
        by - (elim exE conjE, rule that)
      have "reqs' = reqs @ (new1 @ new2)" using n1(1) n2(1) by simp
      moreover have "propagated nt reqs (new1 @ new2) (raised res)"
        using propagated_append [of nt reqs new1 new2 "raised res"] n1(1) n1(3) n2(2) Inr by simp
      moreover have "searches (new1 @ new2) = search_request ll 10000 w # searches new2"
        using n1(2) by (simp add: searches_def)
      ultimately show ?thesis using n2(3) n2(4) False
        by (intro exI [of _ "new1 @ new2"]) (simp add: not_le)
    qed
  qed
qed




lemma seed_hist_nonempty: "seed_hist h \<noteq> []"
  by (simp add: seed_hist_def)

lemma sorted_words_length: "length (sorted_words h) = length h"
  by (simp add: sorted_words_def)

lemma second_phase_log:
  assumes "second_phase fuel nt ll h0 result reqs = Some (res, reqs')"
  shows "\<exists>new. reqs' = reqs @ new \<and> propagated nt reqs new (raised res) \<and>
     length (sorted_words (seed_hist h0)) div 2 < length (sorted_words (seed_hist h0)) \<and>
     prefix (searches new)
       (map (search_request ll 10000)
          (takeWhile (\<lambda>w. freq (seed_hist h0)
                 (sorted_words (seed_hist h0) ! (length (sorted_words (seed_hist h0)) div 2))
               < freq (seed_hist h0) w)
             (take 5 (sorted_words (seed_hist h0))))) \<and>
     (raised res = None \<longrightarrow>
        searches new = map (search_request ll 10000)
          (takeWhile (\<lambda>w. freq (seed_hist h0)
                 (sorted_words (seed_hist h0) ! (length (sorted_words (seed_hist h0)) div 2))
               < freq (seed_hist h0) w)
             (take 5 (sorted_words (seed_hist h0)))))"
proof -
  let ?h = "seed_hist h0"
  let ?words = "sorted_words ?h"
  have len: "0 < length ?words" using seed_hist_nonempty [of h0] by (simp add: sorted_words_length)
  then have idx: "length ?words div 2 < length ?words" by simp
  with assms have "search_words fuel nt ll ?h (freq ?h (?words ! (length ?words div 2)))
      (take 5 ?words) result reqs = Some (res, reqs')"
    by (simp add: second_phase_def threshold_of_def Let_def)
  from search_words_log [OF this] obtain new where
    "reqs' = reqs @ new" "propagated nt reqs new (raised res)"
    "prefix (searches new) (map (search_request ll 10000)
       (takeWhile (\<lambda>w. freq ?h (?words ! (length ?words div 2)) < freq ?h w) (take 5 ?words)))"
    "raised res = None \<longrightarrow> searches new = map (search_request ll 10000)
       (takeWhile (\<lambda>w. freq ?h (?words ! (length ?words div 2)) < freq ?h w) (take 5 ?words))"
    by - (elim exE conjE, rule that)
  with idx show ?thesis by (intro exI [of _ new] conjI)
qed

lemma get_cities_log:
  assumes "get_cities fuel nt ll cache reqs = Some (res, cache', reqs')"
  shows "\<exists>new. reqs' = reqs @ new \<and> propagated nt reqs new (raised res)"
proof -
  let ?n = "nearest_cache ll cache (None, 1000000000000)"
  show ?thesis
  proof (cases "snd ?n < 500")
    case True
    with assms have "reqs' = reqs" by (auto simp: get_cities_def)
    then show ?thesis by (intro exI [of _ "[]"]) simp
  next
    case False
    show ?thesis
    proof (cases "initial_result ?n")
      case (Inl e)
      with assms False have "reqs' = reqs" by (auto simp: get_cities_def)
      then show ?thesis by (intro exI [of _ "[]"]) simp
    next
      case (Inr result0)
      with assms False obtain r1 reqs1 where
        f: "get_places fuel nt ll 1000 [] process_place ([], result0) reqs = Some (r1, reqs1)"
        by (auto simp: get_cities_def split: option.splits)
      from get_places_log [OF f] obtain new1 where
        n1: "reqs1 = reqs @ new1" "propagated nt reqs new1 (raised r1)"
        by - (elim exE conjE, rule that)
      show ?thesis
      proof (cases r1)
        case (Inl e)
        with assms False Inr f have "res = Inl e" "reqs' = reqs1"
          by (auto simp: get_cities_def)
        with n1 Inl show ?thesis by (intro exI [of _ new1]) simp
      next
        case r1: (Inr s1)
        obtain h result1 where s1: "s1 = (h, result1)" by (cases s1)
        from assms False Inr f r1 s1 obtain r2 where
          s: "second_phase fuel nt ll h result1 reqs1 = Some (r2, reqs')" and
          r: "raised res = raised r2"
          by (auto simp: get_cities_def split: option.splits sum.splits)
        from second_phase_log [OF s] obtain new2 where
          n2: "reqs' = reqs1 @ new2" "propagated nt reqs1 new2 (raised r2)"
          by - (elim exE conjE, rule that)
        have "reqs' = reqs @ (new1 @ new2)" using n1(1) n2(1) by simp
        moreover have "propagated nt reqs (new1 @ new2) (raised res)"
          using propagated_append [of nt reqs new1 new2 "raised r2"] n1 n2(2) r1 r by simp
        ultimately show ?thesis by (intro exI [of _ "new1 @ new2"]) simp
      qed
    qed
  qed
qed

lemma places_loop_raise_at:
  "places_loop fuel nt body resp s reqs = Some (res, reqs') \<Longrightarrow> length reqs \<le> n \<Longrightarrow>
   places_loop fuel (raise_at n e nt) body resp s reqs =
     (if length reqs' \<le> n then Some (res, reqs') else Some (Inl e, take (Suc n) reqs'))"
proof (induction fuel arbitrary: resp s reqs)
  case 0
  show ?case
  proof (cases resp)
    case Falsy
    with "0.prems" show ?thesis by simp
  next
    case (Object dat pg)
    with "0.prems" show ?thesis
      by (auto split: option.splits sum.splits)
  qed
next
  case (Suc fuel)
  show ?case
  proof (cases resp)
    case Falsy
    with Suc.prems show ?thesis by simp
  next
    case (Object dat pg)
    show ?thesis
    proof (cases "\<exists>ps s1 pgn url. dat = Some ps \<and> for_each body ps s = Inr s1 \<and>
        pg = Some pgn \<and> paging_next pgn = Some url")
      case False
      with Object Suc.prems show ?thesis
        by (auto split: option.splits sum.splits)
    next
      case True
      then obtain ps s1 pgn url where
        a: "dat = Some ps" "for_each body ps s = Inr s1" "pg = Some pgn"
           "paging_next pgn = Some url"
        by blast
      let ?r = "Get url None"
      from places_loop_log [OF Suc.prems(1)] obtain new where new: "reqs' = reqs @ new"
        by - (elim exE conjE, rule that)
      have step: "places_loop (Suc fuel) nt body resp s reqs =
          (case nt reqs ?r of
             Inl e0 \<Rightarrow> Some (Inl e0, reqs @ [?r])
           | Inr places \<Rightarrow> places_loop fuel nt body places s1 (reqs @ [?r]))"
        for nt
        using Object a by (simp add: get_def)
      show ?thesis
      proof (cases "nt reqs ?r")
        case (Inl e0)
        with step [of nt] Suc.prems(1) have r: "res = Inl e0" "reqs' = reqs @ [?r]" by simp_all
        show ?thesis
        proof (cases "length reqs = n")
          case True
          then show ?thesis using step [of "raise_at n e nt"] r by (simp add: raise_at_def)
        next
          case False
          with Suc.prems(2) show ?thesis
            using step [of "raise_at n e nt"] r Inl by (simp add: raise_at_def)
        qed
      next
        case (Inr places)
        with step [of nt] Suc.prems(1) have
          rec: "places_loop fuel nt body places s1 (reqs @ [?r]) = Some (res, reqs')" by simp
        from places_loop_log [OF rec] obtain new1 where new1: "reqs' = (reqs @ [?r]) @ new1"
          by - (elim exE conjE, rule that)
        show ?thesis
        proof (cases "length reqs = n")
          case True
          then show ?thesis using step [of "raise_at n e nt"] new1 by (simp add: raise_at_def)
        next
          case False
          with Suc.prems(2) have le: "length (reqs @ [?r]) \<le> n" by simp
          from False have "raise_at n e nt reqs ?r = Inr places"
            using Inr by (simp add: raise_at_def)
          with step [of "raise_at n e nt"] Suc.IH [OF rec le] show ?thesis by simp
        qed
      qed
    qed
  qed
qed

lemma get_places_raise_at:
  assumes "get_places fuel nt ll radius query body s reqs = Some (res, reqs')"
    and "length reqs \<le> n"
  shows "get_places fuel (raise_at n e nt) ll radius query body s reqs =
     (if length reqs' \<le> n then Some (res, reqs') else Some (Inl e, take (Suc n) reqs'))"
proof -
  let ?r = "search_request ll radius query"
  show ?thesis
  proof (cases "nt reqs ?r")
    case (Inl e0)
    with assms(1) have r: "res = Inl e0" "reqs' = reqs @ [?r]"
      by (simp_all add: get_places_def get_def)
    show ?thesis
    proof (cases "length reqs = n")
      case True
      then show ?thesis using r by (simp add: get_places_def get_def raise_at_def)
    next
      case False
      with assms(2) show ?thesis using r Inl by (simp add: get_places_def get_def raise_at_def)
    qed
  next
    case (Inr places)
    with assms(1) have
      rec: "places_loop fuel nt body places s (reqs @ [?r]) = Some (res, reqs')"
      by (simp add: get_places_def get_def)
    from places_loop_log [OF rec] obtain new1 where new1: "reqs' = (reqs @ [?r]) @ new1"
      by - (elim exE conjE, rule that)
    show ?thesis
    proof (cases "length reqs = n")
      case True
      then show ?thesis using new1 by (simp add: get_places_def get_def raise_at_def)
    next
      case False
      with assms(2) have le: "length (reqs @ [?r]) \<le> n" by simp
      from places_loop_raise_at [OF rec le, of e] False Inr show ?thesis
        by (simp add: get_places_def get_def raise_at_def)
    qed
  qed
qed

lemma search_words_raise_at:
  "search_words fuel nt ll h threshold ws result reqs = Some (res, reqs') \<Longrightarrow> length reqs \<le> n \<Longrightarrow>
   search_words fuel (raise_at n e nt) ll h threshold ws result reqs =
     (if length reqs' \<le> n then Some (res, reqs') else Some (Inl e, take (Suc n) reqs'))"
proof (induction ws arbitrary: result reqs)
  case Nil
  then show ?case by simp
next
  case (Cons w ws)
  show ?case
  proof (cases "freq h w \<le> threshold")
    case True
    with Cons.prems show ?thesis by simp
  next
    case False
    with Cons.prems(1) obtain r1 reqs1 where
      g: "get_places fuel nt ll 10000 w add_city result reqs = Some (r1, reqs1)"
      by (auto split: option.splits)
    note g' = get_places_raise_at [OF g Cons.prems(2), of e]
    show ?thesis
    proof (cases r1)
      case (Inl e0)
      with Cons.prems(1) False g have "res = Inl e0" "reqs' = reqs1" by simp_all
      with g' Inl False show ?thesis by simp
    next
      case (Inr result1)
      with Cons.prems(1) False g have
        rec: "search_words fuel nt ll h threshold ws result1 reqs1 = Some (res, reqs')" by simp
      from search_words_log [OF rec] obtain new2 where new2: "reqs' = reqs1 @ new2"
        by - (elim exE conjE, rule that)
      show ?thesis
      proof (cases "length reqs1 \<le> n")
        case True
        with g' Inr False Cons.IH [OF rec True] show ?thesis by simp
      next
        case over: False
        with g' False new2 show ?thesis by simp
      qed
    qed
  qed
qed

lemma second_phase_raise_at:
  assumes "second_phase fuel nt ll h0 result reqs = Some (res, reqs')" and "length reqs \<le> n"
  shows "second_phase fuel (raise_at n e nt) ll h0 result reqs =
     (if length reqs' \<le> n then Some (res, reqs') else Some (Inl e, take (Suc n) reqs'))"
proof (cases "threshold_of (seed_hist h0) (sorted_words (seed_hist h0))")
  case (Inl e0)
  with assms show ?thesis by (simp add: second_phase_def Let_def)
next
  case (Inr threshold)
  with assms(1) have "search_words fuel nt ll (seed_hist h0) threshold
      (take 5 (sorted_words (seed_hist h0))) result reqs = Some (res, reqs')"
    by (simp add: second_phase_def Let_def)
  from search_words_raise_at [OF this assms(2), of e] Inr show ?thesis
    by (simp add: second_phase_def Let_def)
qed

lemma get_cities_raise_at:
  assumes run: "get_cities fuel nt ll cache reqs = Some (res, cache', reqs')"
    and le: "length reqs \<le> n"
  shows "get_cities fuel (raise_at n e nt) ll cache reqs =
     (if length reqs' \<le> n then Some (res, cache', reqs')
      else Some (Inl e, cache, take (Suc n) reqs'))"
proof -
  let ?n = "nearest_cache ll cache (None, 1000000000000)"
  show ?thesis
  proof (cases "snd ?n < 500")
    case True
    with run le show ?thesis by (auto simp: get_cities_def)
  next
    case False
    show ?thesis
    proof (cases "initial_result ?n")
      case (Inl e0)
      with run le False show ?thesis by (auto simp: get_cities_def)
    next
      case (Inr result0)
      with run False obtain r1 reqs1 where
        f: "get_places fuel nt ll 1000 [] process_place ([], result0) reqs = Some (r1, reqs1)"
        by (auto simp: get_cities_def split: option.splits)
      note f' = get_places_raise_at [OF f le, of e]
      show ?thesis
      proof (cases r1)
        case (Inl e0)
        with run False Inr f have "res = Inl e0" "cache' = cache" "reqs' = reqs1"
          by (auto simp: get_cities_def)
        with f' Inl False Inr show ?thesis by (simp add: get_cities_def)
      next
        case r1: (Inr s1)
        obtain h result1 where s1: "s1 = (h, result1)" by (cases s1)
        from run False Inr f r1 s1 obtain r2 where
          s: "second_phase fuel nt ll h result1 reqs1 = Some (r2, reqs')"
          by (auto simp: get_cities_def split: option.splits sum.splits)
        from second_phase_log [OF s] obtain new2 where new2: "reqs' = reqs1 @ new2"
          by - (elim exE conjE, rule that)
        show ?thesis
        proof (cases "length reqs1 \<le> n")
          case True
          note s' = second_phase_raise_at [OF s True, of e]
          from run False Inr f r1 s1 s have out:
            "Some (res, cache', reqs') =
               (case r2 of Inl e2 \<Rightarrow> Some (Inl e2, cache, reqs')
                | Inr result \<Rightarrow> Some (Inr (Some result),
                    cache @ [\<lparr>cache_location = \<lparr>cache_latitude = lat ll, cache_longitude = lon ll\<rparr>,
                              cities_list = result\<rparr>], reqs'))"
            by (simp add: get_cities_def)
          show ?thesis
          proof (cases "length reqs' \<le> n")
            case le': True
            with s' f' True False Inr r1 s1 out show ?thesis
              by (simp add: get_cities_def)
          next
            case over: False
            with s' f' True False Inr r1 s1 show ?thesis
              by (simp add: get_cities_def)
          qed
        next
          case over: False
          with f' False Inr new2 show ?thesis by (simp add: get_cities_def)
        qed
      qed
    qed
  qed
qed

section \<open>The claims\<close>

subsection \<open>Cache hit\<close>

text \<open>
  C1. Let entry \<open>i\<close> be the nearest cache entry: no entry is nearer and every earlier
  entry is strictly farther (the scan replaces its candidate only on a strictly smaller
  distance). When its computed distance is below 500, \<^verbatim>\<open>get_cities\<close> returns that
  entry's list itself, the request log is as before (no search call is issued) and the
  cache is as before.
\<close>

theorem cache_hit:
  assumes "i < length cache"
    and "\<forall>j < length cache. distance ll (cache_location (cache ! i))
           \<le> distance ll (cache_location (cache ! j))"
    and "\<forall>j < i. distance ll (cache_location (cache ! i)) < distance ll (cache_location (cache ! j))"
    and "distance ll (cache_location (cache ! i)) < 500"
  shows "get_cities fuel nt ll cache reqs = Some (Inr (Some (cities_list (cache ! i))), cache, reqs)"
proof -
  have "distance ll (cache_location (cache ! i)) < snd (None :: place list option, 1000000000000 :: real)"
    using assms(4) by simp
  from nearest_first_min [OF assms(1) this assms(2) assms(3)] assms(4)
  show ?thesis by (simp add: get_cities_def)
qed

theorem cache_hit_witness:
  "distance origin (cache_location ([origin_entry] ! 0)) < 500 \<and>
   get_cities 0 bath_net origin [origin_entry] [] = Some (Inr (Some [somerset]), [origin_entry], [])"
  using cache_hit [of 0 "[origin_entry]" origin 0 bath_net "[]"]
  by (simp add: distance_def radians_def origin_def origin_entry_def)

subsection \<open>is\_city\<close>

text \<open>
  C5. \<^verbatim>\<open>is_city\<close> returns true exactly when the category is one of City,
  Neighborhood, Country, State/province/region and the location holds both a latitude
  and a longitude.
\<close>

theorem is_city_iff:
  "is_city p = Inr True \<longleftrightarrow>
     (\<exists>c l. category p = Some c \<and>
        c \<in> {''City'', ''Neighborhood'', ''Country'', ''State/province/region''} \<and>
        location p = Some l \<and> latitude l \<noteq> None \<and> longitude l \<noteq> None)"
  by (auto simp: is_city_def city_categories_def split: option.splits)

theorem is_city_iff_witness:
  "is_city somerset = Inr True \<and> is_city abbey = Inr False \<and> is_city unlocated = Inr False"
  using is_city_iff [of somerset] is_city_iff [of abbey] is_city_iff [of unlocated]
  by (simp add: ex_defs is_city_def city_categories_def)

subsection \<open>Missing fields\<close>

text \<open>
  C4 as the spec has it fails: a place of an eligible category without a
  \<^verbatim>\<open>location\<close> key makes \<^verbatim>\<open>is_city\<close> raise \<^verbatim>\<open>KeyError\<close>, and the resolver
  raises the same error when the first search yields such a place.
\<close>

theorem missing_location_raises:
  "location nowhere = None \<and>
   is_city nowhere = Inl (KeyError ''location'') \<and>
   get_cities 0 nowhere_net origin [] [] =
     Some (Inl (KeyError ''location''), [], [search_request origin 1000 []])"
  by (simp add: run_defs ex_defs)

text \<open>
  C4, amended. Only the keys \<^verbatim>\<open>latitude\<close> and \<^verbatim>\<open>longitude\<close> are tested for presence;
  every other key is read by subscript, and an absent one raises \<^verbatim>\<open>KeyError\<close> when it
  is read. So, for every place record:
  \<^item> \<^verbatim>\<open>is_city\<close> raises exactly when \<^verbatim>\<open>category\<close> is absent (\<^verbatim>\<open>KeyError\<close> of
    \<^verbatim>\<open>category\<close>), or the category is eligible and \<^verbatim>\<open>location\<close> is absent (\<^verbatim>\<open>KeyError\<close>
    of \<^verbatim>\<open>location\<close>). It returns without raising in every other case: for a category that
    is not eligible whether or not there is a location, and for an eligible one with a
    location whether or not the coordinates are there.
  \<^item> The test-and-append step of the resolver raises exactly when the place is not yet
    in the result and \<^verbatim>\<open>is_city\<close> raises, with the same exception.
  \<^item> The loop body of the first search raises exactly when \<^verbatim>\<open>name\<close>, \<^verbatim>\<open>location\<close> or
    the location's \<^verbatim>\<open>city\<close> is absent, or the place is not yet in the result and
    \<^verbatim>\<open>category\<close> is absent; the \<^verbatim>\<open>KeyError\<close> is that of the first of these keys, in this
    order, that is absent.
\<close>

theorem no_raise_iff:
  "(is_city p = Inl e \<longleftrightarrow>
      category p = None \<and> e = KeyError ''category'' \<or>
      (\<exists>c. category p = Some c \<and> c \<in> set city_categories) \<and> location p = None \<and>
        e = KeyError ''location'') \<and>
   ((\<exists>b. is_city p = Inr b) \<longleftrightarrow>
      (\<exists>c. category p = Some c \<and> (c \<in> set city_categories \<longrightarrow> location p \<noteq> None))) \<and>
   (add_city result p = Inl e \<longleftrightarrow> p \<notin> set result \<and> is_city p = Inl e) \<and>
   ((\<exists>r. add_city result p = Inr r) \<longleftrightarrow> p \<in> set result \<or> (\<exists>b. is_city p = Inr b)) \<and>
   (process_place s p = Inl e \<longleftrightarrow>
      name p = None \<and> e = KeyError ''name'' \<or>
      name p \<noteq> None \<and> location p = None \<and> e = KeyError ''location'' \<or>
      name p \<noteq> None \<and> (\<exists>l. location p = Some l \<and> city l = None) \<and> e = KeyError ''city'' \<or>
      name p \<noteq> None \<and> (\<exists>l. location p = Some l \<and> city l \<noteq> None) \<and> p \<notin> set (snd s) \<and>
        category p = None \<and> e = KeyError ''category'') \<and>
   ((\<exists>s'. process_place s p = Inr s') \<longleftrightarrow>
      name p \<noteq> None \<and> (\<exists>l. location p = Some l \<and> city l \<noteq> None) \<and>
      (p \<in> set (snd s) \<or> category p \<noteq> None))"
proof -
  have c1: "is_city p = Inl e \<longleftrightarrow>
      category p = None \<and> e = KeyError ''category'' \<or>
      (\<exists>c. category p = Some c \<and> c \<in> set city_categories) \<and> location p = None \<and>
        e = KeyError ''location''"
    by (auto simp: is_city_def split: option.splits)
  have c2: "(\<exists>b. is_city p = Inr b) \<longleftrightarrow>
      (\<exists>c. category p = Some c \<and> (c \<in> set city_categories \<longrightarrow> location p \<noteq> None))"
    by (auto simp: is_city_def split: option.splits)
  have c3: "add_city result p = Inl e \<longleftrightarrow> p \<notin> set result \<and> is_city p = Inl e"
    by (auto simp: add_city_def split: sum.splits)
  have c4: "(\<exists>r. add_city result p = Inr r) \<longleftrightarrow> p \<in> set result \<or> (\<exists>b. is_city p = Inr b)"
    by (auto simp: add_city_def split: sum.splits)
  have c5: "process_place s p = Inl e \<longleftrightarrow>
      name p = None \<and> e = KeyError ''name'' \<or>
      name p \<noteq> None \<and> location p = None \<and> e = KeyError ''location'' \<or>
      name p \<noteq> None \<and> (\<exists>l. location p = Some l \<and> city l = None) \<and> e = KeyError ''city'' \<or>
      name p \<noteq> None \<and> (\<exists>l. location p = Some l \<and> city l \<noteq> None) \<and> p \<notin> set (snd s) \<and>
        category p = None \<and> e = KeyError ''category''"
    by (auto simp: process_place_def add_city_def is_city_def Let_def split: option.splits sum.splits)
  have c6: "(\<exists>s'. process_place s p = Inr s') \<longleftrightarrow>
      name p \<noteq> None \<and> (\<exists>l. location p = Some l \<and> city l \<noteq> None) \<and>
      (p \<in> set (snd s) \<or> category p \<noteq> None)"
    by (auto simp: process_place_def add_city_def is_city_def Let_def split: option.splits sum.splits)
  from c1 c2 c3 c4 c5 c6 show ?thesis by (intro conjI)
qed

theorem no_raise_iff_witness:
  "is_city pub = Inr False \<and>
   add_city [] pub = Inr [] \<and>
   process_place ([], []) pub = Inl (KeyError ''location'') \<and>
   is_city unlocated = Inr False \<and>
   process_place ([], []) unlocated = Inr ([(''wells'', 2)], []) \<and>
   is_city nowhere = Inl (KeyError ''location'')"
proof -
  note T = no_raise_iff [of pub "KeyError ''location''" "[]" "([], [])"]
  from T have "\<exists>b. is_city pub = Inr b"
    by (simp add: pub_def city_categories_def)
  moreover from T have "process_place ([], []) pub = Inl (KeyError ''location'')"
    by (simp add: pub_def)
  moreover have "is_city pub = Inr False" "add_city [] pub = Inr []"
    "is_city unlocated = Inr False"
    "process_place ([], []) unlocated = Inr ([(''wells'', 2)], [])"
    "is_city nowhere = Inl (KeyError ''location'')"
    by (simp_all add: run_defs ex_defs pub_def)
  ultimately show ?thesis by simp
qed

subsection \<open>Duplicates\<close>

text \<open>
  C3 as the spec has it fails: the test \<^verbatim>\<open>place not in result\<close> compares whole
  records, so two records that share an identifier and differ in their name are both
  appended.
\<close>

theorem same_identifier_twice:
  "get_cities 0 duplicate_net origin [] [] =
     Some (Inr (Some [bath, bath_renamed]),
           [\<lparr>cache_location = \<lparr>cache_latitude = 0, cache_longitude = 0\<rparr>,
             cities_list = [bath, bath_renamed]\<rparr>],
           [search_request origin 1000 [], search_request origin 10000 ''bath'']) \<and>
   place_id bath = place_id bath_renamed \<and>
   \<not> distinct (map place_id [bath, bath_renamed])"
  by (simp add: run_defs ex_defs)

text \<open>
  C3, amended. No place record occurs twice in a list returned by \<^verbatim>\<open>get_cities\<close>,
  where records are compared as a whole, provided no cached list holds a record twice;
  and that property of the cache is kept by the call, so it holds of every cache built
  by \<^verbatim>\<open>get_cities\<close> from the empty one.
\<close>

theorem result_distinct:
  assumes inv: "\<forall>entry \<in> set cache. distinct (cities_list entry)"
    and run: "get_cities fuel nt ll cache reqs = Some (Inr r, cache', reqs')"
  shows "\<exists>result. r = Some result \<and> distinct result \<and>
           (\<forall>entry \<in> set cache'. distinct (cities_list entry))"
proof (cases "snd (nearest_cache ll cache (None, 1000000000000)) < 500")
  case True
  with run have r: "r = fst (nearest_cache ll cache (None, 1000000000000))" and c: "cache' = cache"
    by (auto simp: get_cities_def)
  from nearest_cache_cases [of ll cache "(None, 1000000000000)"] True
  obtain entry where "entry \<in> set cache" "fst (nearest_cache ll cache (None, 1000000000000)) = Some (cities_list entry)"
    by auto
  with inv r c show ?thesis by auto
next
  case False
  have init: "\<And>result0. initial_result (nearest_cache ll cache (None, 1000000000000)) = Inr result0
      \<Longrightarrow> distinct result0"
    using nearest_cache_cases [of ll cache "(None, 1000000000000)"] inv
    by (auto simp: initial_result_def split: if_splits option.splits)
  have "\<exists>result. r = Some result \<and> distinct result"
  proof (rule get_cities_miss_inv [of distinct, OF _ run False])
    show "\<And>s x s'. distinct s \<Longrightarrow> add_city s x = Inr s' \<Longrightarrow> distinct s'"
      by (rule add_city_distinct)
    show "\<And>result0. initial_result (nearest_cache ll cache (None, 1000000000000)) = Inr result0
      \<Longrightarrow> distinct result0"
      by (rule init)
  qed
  then obtain result where res: "r = Some result" "distinct result" by blast
  from run False res(1) have "cache' = cache @
      [\<lparr>cache_location = \<lparr>cache_latitude = lat ll, cache_longitude = lon ll\<rparr>, cities_list = result\<rparr>]"
    unfolding get_cities_def Let_def
    by (auto split: sum.splits option.splits prod.splits)
  with inv res show ?thesis by auto
qed

theorem result_distinct_witness:
  "distinct (cities_list origin_entry) \<and>
   get_cities 1 bath_net nearby [origin_entry] [] =
     Some (Inr (Some [somerset, bath]),
           [origin_entry,
            \<lparr>cache_location = \<lparr>cache_latitude = 0, cache_longitude = 3 / 500\<rparr>,
             cities_list = [somerset, bath]\<rparr>],
           [search_request nearby 1000 [], Get ''page2'' None, search_request nearby 10000 ''bath'']) \<and>
   distinct [somerset, bath]"
proof -
  have inv: "\<forall>entry \<in> set [origin_entry]. distinct (cities_list entry)"
    by (simp add: origin_entry_def)
  have run: "get_cities 1 bath_net nearby [origin_entry] [] =
     Some (Inr (Some [somerset, bath]),
           [origin_entry,
            \<lparr>cache_location = \<lparr>cache_latitude = 0, cache_longitude = 3 / 500\<rparr>,
             cities_list = [somerset, bath]\<rparr>],
           [search_request nearby 1000 [], Get ''page2'' None, search_request nearby 10000 ''bath''])"
    by (simp add: run_defs ex_defs distance_def radians_def sqrt_less_iff)
  from result_distinct [OF inv run] have "distinct [somerset, bath]" by simp
  with inv run show ?thesis by simp
qed

subsection \<open>Partial reuse\<close>

text \<open>
  C8. When the nearest cache entry (as in C1) is at a computed distance in [500, 1000),
  every place of its list is in the list returned.
\<close>

theorem partial_reuse_superset:
  assumes "i < length cache"
    and "\<forall>j < length cache. distance ll (cache_location (cache ! i))
           \<le> distance ll (cache_location (cache ! j))"
    and "\<forall>j < i. distance ll (cache_location (cache ! i)) < distance ll (cache_location (cache ! j))"
    and "500 \<le> distance ll (cache_location (cache ! i))"
    and "distance ll (cache_location (cache ! i)) < 1000"
    and "get_cities fuel nt ll cache reqs = Some (Inr r, cache', reqs')"
  shows "\<exists>result. r = Some result \<and> set (cities_list (cache ! i)) \<subseteq> set result"
proof -
  let ?d = "distance ll (cache_location (cache ! i))"
  have "?d < snd (None :: place list option, 1000000000000 :: real)"
    using assms(5) by simp
  from nearest_first_min [OF assms(1) this assms(2) assms(3)]
  have n: "nearest_cache ll cache (None, 1000000000000) = (Some (cities_list (cache ! i)), ?d)" .
  have miss: "\<not> snd (nearest_cache ll cache (None, 1000000000000)) < 500"
    using n assms(4) by simp
  have init: "\<And>result0. initial_result (nearest_cache ll cache (None, 1000000000000)) = Inr result0
      \<Longrightarrow> set (cities_list (cache ! i)) \<subseteq> set result0"
    using n assms(5) by (simp add: initial_result_def)
  show ?thesis
  proof (rule get_cities_miss_inv [of "\<lambda>result. set (cities_list (cache ! i)) \<subseteq> set result",
      OF _ assms(6) miss])
    show "\<And>s x s'. set (cities_list (cache ! i)) \<subseteq> set s \<Longrightarrow> add_city s x = Inr s'
      \<Longrightarrow> set (cities_list (cache ! i)) \<subseteq> set s'"
      by (rule add_city_superset)
    show "\<And>result0. initial_result (nearest_cache ll cache (None, 1000000000000)) = Inr result0
      \<Longrightarrow> set (cities_list (cache ! i)) \<subseteq> set result0"
      by (rule init)
  qed
qed

theorem partial_reuse_superset_witness:
  "500 \<le> distance nearby (cache_location ([origin_entry] ! 0)) \<and>
   distance nearby (cache_location ([origin_entry] ! 0)) < 1000 \<and>
   get_cities 1 bath_net nearby [origin_entry] [] =
     Some (Inr (Some [somerset, bath]),
           [origin_entry,
            \<lparr>cache_location = \<lparr>cache_latitude = 0, cache_longitude = 3 / 500\<rparr>,
             cities_list = [somerset, bath]\<rparr>],
           [search_request nearby 1000 [], Get ''page2'' None, search_request nearby 10000 ''bath'']) \<and>
   set (cities_list ([origin_entry] ! 0)) \<subseteq> set [somerset, bath]"
proof -
  have d1: "500 \<le> distance nearby (cache_location ([origin_entry] ! 0))"
    by (simp add: distance_def radians_def ex_defs sqrt_ge_iff)
  have d2: "distance nearby (cache_location ([origin_entry] ! 0)) < 1000"
    by (simp add: distance_def radians_def ex_defs sqrt_less_iff)
  have run: "get_cities 1 bath_net nearby [origin_entry] [] =
     Some (Inr (Some [somerset, bath]),
           [origin_entry,
            \<lparr>cache_location = \<lparr>cache_latitude = 0, cache_longitude = 3 / 500\<rparr>,
             cities_list = [somerset, bath]\<rparr>],
           [search_request nearby 1000 [], Get ''page2'' None, search_request nearby 10000 ''bath''])"
    by (simp add: run_defs ex_defs distance_def radians_def sqrt_less_iff)
  from partial_reuse_superset [of 0 "[origin_entry]" nearby, OF _ _ _ d1 d2 run]
  have "set (cities_list ([origin_entry] ! 0)) \<subseteq> set [somerset, bath]" by simp
  with d1 d2 run show ?thesis by blast
qed

subsection \<open>The cache update\<close>

text \<open>
  C10. A call that ends in an exception leaves the cache as it was. A call that returns
  normally while every cache entry is at a computed distance of at least 500 (a cache
  miss) appends exactly one entry, holding the queried coordinate and the returned
  list, after the unchanged old entries.
\<close>

theorem cache_update:
  assumes "get_cities fuel nt ll cache reqs = Some (res, cache', reqs')"
  shows "(\<forall>e. res = Inl e \<longrightarrow> cache' = cache) \<and>
         (\<forall>r. res = Inr r \<and> (\<forall>entry \<in> set cache. 500 \<le> distance ll (cache_location entry)) \<longrightarrow>
            (\<exists>result. r = Some result \<and>
               cache' = cache @ [\<lparr>cache_location = \<lparr>cache_latitude = lat ll, cache_longitude = lon ll\<rparr>,
                                  cities_list = result\<rparr>]))"
proof (intro conjI allI impI)
  fix e assume "res = Inl e"
  with assms show "cache' = cache"
    unfolding get_cities_def Let_def
    by (auto split: if_splits sum.splits option.splits prod.splits)
next
  fix r assume a: "res = Inr r \<and> (\<forall>entry \<in> set cache. 500 \<le> distance ll (cache_location entry))"
  then have "500 \<le> snd (nearest_cache ll cache (None, 1000000000000))"
    by (intro nearest_cache_lower_bound) simp_all
  with assms a show "\<exists>result. r = Some result \<and>
               cache' = cache @ [\<lparr>cache_location = \<lparr>cache_latitude = lat ll, cache_longitude = lon ll\<rparr>,
                                  cities_list = result\<rparr>]"
    unfolding get_cities_def Let_def
    by (auto split: if_splits sum.splits option.splits prod.splits)
qed

theorem cache_update_witness:
  "get_cities 0 failing_net nearby [origin_entry] [] =
     Some (Inl (RequestException ''503''), [origin_entry],
           [search_request nearby 1000 [], search_request nearby 10000 ''bath'']) \<and>
   500 \<le> distance nearby (cache_location origin_entry) \<and>
   get_cities 1 bath_net nearby [origin_entry] [] =
     Some (Inr (Some [somerset, bath]),
           [origin_entry] @
           [\<lparr>cache_location = \<lparr>cache_latitude = lat nearby, cache_longitude = lon nearby\<rparr>,
             cities_list = [somerset, bath]\<rparr>],
           [search_request nearby 1000 [], Get ''page2'' None, search_request nearby 10000 ''bath''])"
proof -
  have far: "500 \<le> distance nearby (cache_location origin_entry)"
    by (simp add: distance_def radians_def ex_defs sqrt_ge_iff)
  obtain c1 where fail: "get_cities 0 failing_net nearby [origin_entry] [] =
     Some (Inl (RequestException ''503''), c1,
           [search_request nearby 1000 [], search_request nearby 10000 ''bath''])"
    by (simp add: run_defs ex_defs distance_def radians_def sqrt_less_iff)
  obtain c2 where run: "get_cities 1 bath_net nearby [origin_entry] [] =
     Some (Inr (Some [somerset, bath]), c2,
           [search_request nearby 1000 [], Get ''page2'' None, search_request nearby 10000 ''bath''])"
    by (simp add: run_defs ex_defs distance_def radians_def sqrt_less_iff)
  from cache_update [OF fail] have 1: "c1 = [origin_entry]" by simp
  from cache_update [OF run] far have 2: "c2 = [origin_entry] @
           [\<lparr>cache_location = \<lparr>cache_latitude = lat nearby, cache_longitude = lon nearby\<rparr>,
             cities_list = [somerset, bath]\<rparr>]" by simp
  from fail run far 1 2 show ?thesis by simp
qed

subsection \<open>No place found\<close>

text \<open>
  C2 as the spec has it fails: with an empty cache and a first search that yields no
  place, the only request issued is the first search. The seeded token is the only
  word, so the threshold is its own frequency and the loop over the words stops at
  once; no search for \<^verbatim>\<open>city\<close> is issued, whatever the network would answer to it.
\<close>

theorem no_city_search:
  "places_list 0 city_net origin 1000 [] [] = Some (Inr [], [search_request origin 1000 []]) \<and>
   get_cities 0 city_net origin [] [] =
     Some (Inr (Some []),
           [\<lparr>cache_location = \<lparr>cache_latitude = 0, cache_longitude = 0\<rparr>, cities_list = []\<rparr>],
           [search_request origin 1000 []]) \<and>
   count_list [search_request origin 1000 []] (search_request origin 10000 ''city'') = 0"
  by (simp add: places_list_def run_defs ex_defs)

text \<open>
  C2, amended. When the cache is empty and the first search (1000 m, empty query)
  yields no place, the loop of the first search leaves the histogram and the result
  empty, the histogram is seeded to \<^verbatim>\<open>{'city': 1}\<close>, the rest of the call issues no
  request, and \<^verbatim>\<open>get_cities\<close> returns the empty list and appends the cache entry of the
  queried coordinate with the empty list.
\<close>

theorem no_places_found:
  assumes "places_list fuel nt ll 1000 [] reqs = Some (Inr [], reqs1)"
  shows "get_places fuel nt ll 1000 [] process_place ([], []) reqs = Some (Inr ([], []), reqs1) \<and>
         seed_hist [] = [(''city'', 1)] \<and>
         second_phase fuel nt ll [] [] reqs1 = Some (Inr [], reqs1) \<and>
         get_cities fuel nt ll [] reqs =
           Some (Inr (Some []),
                 [\<lparr>cache_location = \<lparr>cache_latitude = lat ll, cache_longitude = lon ll\<rparr>,
                   cities_list = []\<rparr>],
                 reqs1)"
proof -
  have first: "get_places fuel nt ll 1000 [] process_place ([], []) reqs = Some (Inr ([], []), reqs1)"
    using assms unfolding places_list_def get_places_def
    by (auto simp: get_def split: sum.splits dest: places_loop_no_places)
  have second: "second_phase fuel nt ll [] [] reqs1 = Some (Inr [], reqs1)"
    by (simp add: second_phase_def seed_hist_def sorted_words_def threshold_of_def)
  from first second show ?thesis
    by (simp add: get_cities_def initial_result_def seed_hist_def)
qed

theorem no_places_found_witness:
  "places_list 0 city_net origin 1000 [] [] = Some (Inr [], [search_request origin 1000 []]) \<and>
   get_cities 0 city_net origin [] [] =
     Some (Inr (Some []),
           [\<lparr>cache_location = \<lparr>cache_latitude = lat origin, cache_longitude = lon origin\<rparr>,
             cities_list = []\<rparr>],
           [search_request origin 1000 []])"
proof -
  have p: "places_list 0 city_net origin 1000 [] [] = Some (Inr [], [search_request origin 1000 []])"
    by (simp add: places_list_def run_defs ex_defs)
  from no_places_found [OF p] p show ?thesis by simp
qed

subsection \<open>Tokenization\<close>

text \<open>
  C6. The loop body of the first search counts, for a place with name \<open>n\<close> and city
  field \<open>c\<close>, exactly the tokens of the specification: for every whitespace-separated
  word of \<open>n\<close> and \<open>c\<close>, one leading comma or opening parenthesis and then one trailing
  comma or closing parenthesis are stripped, a remainder of length at most 2 is
  discarded, and the lowercased remainder has its frequency raised by one.
\<close>

theorem tokenization:
  assumes "name p = Some n" and "location p = Some l" and "city l = Some c"
    and "process_place (h, result) p = Inr (h', result')"
  shows "freq h' x = freq h x + count_list (tokens_of (split n @ split c)) x"
proof -
  from assms have "h' = foldl count_word h (split n @ split c)"
    by (auto simp: process_place_def Let_def split: sum.splits)
  then show ?thesis by (simp only: freq_foldl_count_word)
qed

theorem tokenization_witness:
  "process_place ([], []) new_york = Inr ([(''new'', 2), (''york'', 2), (''city'', 1)], [new_york]) \<and>
   tokens_of (split ''New York City'' @ split ''New York, (NY)'') =
     [''new'', ''york'', ''city'', ''new'', ''york''] \<and>
   freq [(''new'', 2), (''york'', 2), (''city'', 1)] ''york'' =
     freq [] ''york'' + count_list [''new'', ''york'', ''city'', ''new'', ''york''] ''york''"
proof -
  have n: "name new_york = Some ''New York City''"
    and l: "location new_york =
      Some \<lparr>latitude = Some 0, longitude = Some 0, city = Some ''New York, (NY)''\<rparr>"
    by (simp_all add: new_york_def)
  have c: "city \<lparr>latitude = Some 0, longitude = Some 0, city = Some ''New York, (NY)''\<rparr> =
      Some ''New York, (NY)''"
    by simp
  have run: "process_place ([], []) new_york =
      Inr ([(''new'', 2), (''york'', 2), (''city'', 1)], [new_york])"
    by (simp add: run_defs ex_defs)
  have tk: "tokens_of (split ''New York City'' @ split ''New York, (NY)'') =
      [''new'', ''york'', ''city'', ''new'', ''york'']"
    by (simp add: tokens_of_def List.map_filter_simps token_of_def strip_trailing_def split_def
        is_space_def lower_def lower_char_def)
  from tokenization [OF n l c run, of "''york''"] tk
  have "freq [(''new'', 2), (''york'', 2), (''city'', 1)] ''york'' =
     freq [] ''york'' + count_list [''new'', ''york'', ''city'', ''new'', ''york''] ''york''"
    by simp
  with run tk show ?thesis by simp
qed

subsection \<open>Exceptions of the search calls\<close>

text \<open>
  C9. Take a call that ends, and the requests \<open>new\<close> it issues, those that follow a
  paging link included.
  \<^item> If one of them is answered with an exception, the call ends with that very
    exception and the request is the last one the call issues: the exception is not
    caught and nothing is retried.
  \<^item> Whichever of them is made to raise, the network being as before up to that request
    and answering that request with an exception \<open>e\<close>, the call does return: it ends with
    \<open>e\<close>, the cache as it was, and the raising request is the last one issued.
\<close>

theorem exceptions_propagate:
  assumes "get_cities fuel nt ll cache reqs = Some (res, cache', reqs')"
  shows "\<exists>new. reqs' = reqs @ new \<and>
           (\<forall>i e. i < length new \<and> nt (reqs @ take i new) (new ! i) = Inl e \<longrightarrow>
                  res = Inl e \<and> Suc i = length new) \<and>
           (\<forall>i e. i < length new \<longrightarrow>
                  get_cities fuel (raise_at (length reqs + i) e nt) ll cache reqs =
                    Some (Inl e, cache, reqs @ take (Suc i) new))"
proof -
  from get_cities_log [OF assms] obtain new where
    n: "reqs' = reqs @ new" "propagated nt reqs new (raised res)"
    by - (elim exE conjE, rule that)
  have a: "\<forall>i e. i < length new \<and> nt (reqs @ take i new) (new ! i) = Inl e \<longrightarrow>
                  res = Inl e \<and> Suc i = length new"
  proof (intro allI impI)
    fix i e
    assume a: "i < length new \<and> nt (reqs @ take i new) (new ! i) = Inl e"
    with propagated_nth [OF n(2), of i e] have "raised res = Some e" "Suc i = length new"
      by simp_all
    then show "res = Inl e \<and> Suc i = length new" by (cases res) simp_all
  qed
  have b: "\<forall>i e. i < length new \<longrightarrow>
                  get_cities fuel (raise_at (length reqs + i) e nt) ll cache reqs =
                    Some (Inl e, cache, reqs @ take (Suc i) new)"
  proof (intro allI impI)
    fix i e
    assume i: "i < length new"
    have le: "length reqs \<le> length reqs + i" by simp
    from get_cities_raise_at [OF assms le, of e] i n(1)
    show "get_cities fuel (raise_at (length reqs + i) e nt) ll cache reqs =
            Some (Inl e, cache, reqs @ take (Suc i) new)"
      by simp
  qed
  from n(1) a b show ?thesis by (intro exI [of _ new] conjI)
qed

theorem exceptions_propagate_witness:
  "get_cities 0 failing_net nearby [] [] =
     Some (Inl (RequestException ''503''), [],
           [search_request nearby 1000 [], search_request nearby 10000 ''bath'']) \<and>
   failing_net [search_request nearby 1000 []] (search_request nearby 10000 ''bath'') =
     Inl (RequestException ''503'') \<and>
   get_cities 1 bath_net nearby [] [] =
     Some (Inr (Some [bath, somerset]),
           [\<lparr>cache_location = \<lparr>cache_latitude = 0, cache_longitude = 3 / 500\<rparr>,
             cities_list = [bath, somerset]\<rparr>],
           [search_request nearby 1000 [], Get ''page2'' None,
            search_request nearby 10000 ''bath'']) \<and>
   get_cities 1 (raise_at 1 (RequestException ''timeout'') bath_net) nearby [] [] =
     Some (Inl (RequestException ''timeout''), [],
           [search_request nearby 1000 [], Get ''page2'' None])"
proof -
  let ?s1 = "search_request nearby 1000 []"
  let ?s2 = "search_request nearby 10000 ''bath''"
  obtain res where run: "get_cities 0 failing_net nearby [] [] = Some (res, [], [?s1, ?s2])"
    by (simp add: run_defs ex_defs)
  have fail: "failing_net [?s1] ?s2 = Inl (RequestException ''503'')"
    by (simp add: ex_defs search_request_def)
  from exceptions_propagate [OF run] obtain new where
    "[?s1, ?s2] = [] @ new" and
    "\<forall>i e. i < length new \<and> failing_net ([] @ take i new) (new ! i) = Inl e \<longrightarrow>
       res = Inl e \<and> Suc i = length new"
    by - (elim exE conjE, rule that)
  then have "\<forall>i e. i < length [?s1, ?s2] \<and> failing_net ([] @ take i [?s1, ?s2]) ([?s1, ?s2] ! i) = Inl e
       \<longrightarrow> res = Inl e"
    by simp
  from this [rule_format, of 1 "RequestException ''503''"] fail
  have res: "res = Inl (RequestException ''503'')" by simp
  have run2: "get_cities 1 bath_net nearby [] [] =
     Some (Inr (Some [bath, somerset]),
           [\<lparr>cache_location = \<lparr>cache_latitude = 0, cache_longitude = 3 / 500\<rparr>,
             cities_list = [bath, somerset]\<rparr>],
           [?s1, Get ''page2'' None, ?s2])"
    by (simp add: run_defs ex_defs)
  from exceptions_propagate [OF run2] obtain new2 where
    n2: "[?s1, Get ''page2'' None, ?s2] = [] @ new2" and
    "\<forall>i e. i < length new2 \<longrightarrow>
       get_cities 1 (raise_at (length ([] :: request list) + i) e bath_net) nearby [] [] =
         Some (Inl e, [], [] @ take (Suc i) new2)"
    by - (elim exE conjE, rule that)
  from this(2) [rule_format, of 1 "RequestException ''timeout''"] n2
  have inj: "get_cities 1 (raise_at 1 (RequestException ''timeout'') bath_net) nearby [] [] =
     Some (Inl (RequestException ''timeout''), [], [?s1, Get ''page2'' None])"
    by auto
  from run res fail run2 inj show ?thesis by simp
qed

subsection \<open>The secondary searches\<close>



end
